theory Spec2Isabelle
  imports Main "HOL-Library.Word" "HOL-Library.AList" "HOL-Library.Multiset"
begin

section \<open>Port mappings of a container: the data model\<close>

text \<open>
  The development embeds package \<open>generate\<close> (port publishing): \<open>checkProtocol\<close>,
  \<open>parsePortMapping\<close>, \<open>createPortMappings\<close> and the call of \<open>getRandomPort\<close>.
  Go's \<open>uint16\<close> is \<open>16 word\<close>, \<open>uint32\<close> and \<open>int32\<close> are \<open>32 word\<close>
  (read with \<open>unat\<close> and \<open>sint\<close>), \<open>int\<close> is \<open>int\<close>; a conversion between
  integer types is \<open>ucast\<close> or \<open>word_of_int\<close>, both of which truncate as Go does.
\<close>

type_synonym u16 = "16 word"
type_synonym u32 = "32 word"
type_synonym i32 = "32 word"

text \<open>\<open>specgen.PortMapping\<close>: one request of the user.\<close>

record PortMapping =
  HostIP :: string
  ContainerPort :: u16
  HostPort :: u16
  Range :: u16
  Protocol :: string

text \<open>\<open>ocicni.PortMapping\<close>: one finalized mapping.\<close>

record ocicni_PortMapping =
  cniHostPort :: i32
  cniContainerPort :: i32
  cniProtocol :: string
  cniHostIP :: string

text \<open>
  Every \<open>errors.Errorf\<close> of the source is one constructor; \<open>errors.Wrapf\<close> around the
  error of \<open>checkProtocol\<close> keeps its cause. \<open>NilMapPanic\<close> is Go's run-time panic on an
  assignment to an entry of a nil map, \<open>IndexPanic\<close> the one on an index out of range.
\<close>

datatype error =
    InvalidProtocol string
  | ProtocolNotAllowed
  | NoValidProtocols
  | InvalidHostIP string
  | ZeroContainerPort
  | ContainerPortRangeOverflow
  | HostPortRangeOverflow
  | ZeroPortInExpansion
  | ConflictingContainerPort u16 string
  | ConflictingHostPort u16 string
  | InspectFailed
  | ExposeNotANumber string
  | ExposeInvalidPort int string
  | ExposeProtocolError u16 error
  | ExposeZeroPort
  | PortProbeFailed
  | PortAllocationExhausted u16
  | NilMapPanic
  | IndexPanic


text \<open>
  A \<open>map[uint16]uint16\<close> is a partial map; reading a key that is absent gives Go's zero
  value. The two validation tables are \<open>map[string]map[string]map[uint16]uint16\<close>:
  protocol, then host IP, then port. \<open>portMapAt\<close> is the port map found under a host
  IP, or the fresh one that \<open>make\<close> returns when the key is absent.
\<close>

type_synonym portMap = "u16 \<rightharpoonup> u16"
type_synonym validateTable = "string \<rightharpoonup> (string \<rightharpoonup> portMap)"

definition mapGet :: "portMap \<Rightarrow> u16 \<Rightarrow> u16" where
  "mapGet m k = (case m k of None \<Rightarrow> 0 | Some v \<Rightarrow> v)"

definition portMapAt :: "(string \<rightharpoonup> portMap) \<Rightarrow> string \<Rightarrow> portMap" where
  "portMapAt ipMap ip = (case ipMap ip of None \<Rightarrow> Map.empty | Some m \<Rightarrow> m)"

definition tableGet :: "validateTable \<Rightarrow> string \<Rightarrow> string \<Rightarrow> u16 \<Rightarrow> u16" where
  "tableGet t p ip k =
     (case t p of None \<Rightarrow> 0
      | Some ipMap \<Rightarrow> (case ipMap ip of None \<Rightarrow> 0 | Some m \<Rightarrow> mapGet m k))"

text \<open>
  What the code takes from outside: \<open>net.ParseIP\<close> (as the test \<open>ip != nil\<close>), the
  result of each call of \<open>getRandomPort\<close> (\<open>None\<close> is its error), and the order in
  which \<open>range\<close> visits the keys of a map the code has built, which Go leaves
  unspecified: each order function is given the entries in insertion order and
  returns them in the order of the iteration.
\<close>

record env =
  ParseIP_ok :: "string \<Rightarrow> bool"
  portSource :: "nat \<Rightarrow> int option"
  rangeProtocols :: "string list \<Rightarrow> string list"
  rangeExpose :: "(u16 \<times> string) list \<Rightarrow> (u16 \<times> string) list"
  rangeToExpose :: "(u16 \<times> string list) list \<Rightarrow> (u16 \<times> string list) list"

definition iteration_orders :: "env \<Rightarrow> bool" where
  "iteration_orders e \<longleftrightarrow>
     (\<forall>xs. mset (rangeProtocols e xs) = mset xs) \<and>
     (\<forall>xs. mset (rangeExpose e xs) = mset xs) \<and>
     (\<forall>xs. mset (rangeToExpose e xs) = mset xs)"

section \<open>checkProtocol\<close>

definition protoTCP :: string where "protoTCP = ''tcp''"
definition protoUDP :: string where "protoUDP = ''udp''"
definition protoSCTP :: string where "protoSCTP = ''sctp''"

text \<open>\<open>strings.Split(s, sep)\<close> for a separator of one character.\<close>

fun Split :: "string \<Rightarrow> char \<Rightarrow> string list" where
  "Split [] sep = [[]]"
| "Split (c # cs) sep =
     (if c = sep then [] # Split cs sep
      else (case Split cs sep of [] \<Rightarrow> [[c]] | w # ws \<Rightarrow> (c # w) # ws))"

text \<open>The loop over \<open>splitProto\<close>; the set \<open>protocols\<close> is a list without duplicates.\<close>

fun checkProtocol_loop :: "bool \<Rightarrow> string list \<Rightarrow> string list \<Rightarrow> error + string list" where
  "checkProtocol_loop allowSCTP [] protocols = Inr protocols"
| "checkProtocol_loop allowSCTP (p # ps) protocols =
     (if p = protoTCP \<or> p = [] then
        checkProtocol_loop allowSCTP ps (List.insert protoTCP protocols)
      else if p = protoUDP then
        checkProtocol_loop allowSCTP ps (List.insert protoUDP protocols)
      else if p = protoSCTP then
        (if \<not> allowSCTP then Inl ProtocolNotAllowed
         else checkProtocol_loop allowSCTP ps (List.insert protoSCTP protocols))
      else Inl (InvalidProtocol p))"

definition checkProtocol :: "env \<Rightarrow> string \<Rightarrow> bool \<Rightarrow> error + string list" where
  "checkProtocol e protocol allowSCTP =
     (case checkProtocol_loop allowSCTP (Split protocol CHR '','') [] of
        Inl err \<Rightarrow> Inl err
      | Inr protocols \<Rightarrow>
          (let finalProto = rangeProtocols e protocols
           in if length finalProto = 0 then Inl NoValidProtocols else Inr finalProto))"

section \<open>parsePortMapping\<close>

text \<open>
  The body of the innermost loop for one pair \<open>cPort\<close>, \<open>hPort\<close>, on the two port
  maps of one protocol and host IP. \<open>origIP\<close> is \<open>port.HostIP\<close>, which the emitted
  mapping keeps.
\<close>

definition rangeStep ::
  "string \<Rightarrow> string \<Rightarrow> u16 \<Rightarrow> u16 \<Rightarrow>
   portMap \<times> portMap \<times> ocicni_PortMapping list \<Rightarrow>
   error + (portMap \<times> portMap \<times> ocicni_PortMapping list)" where
  "rangeStep p origIP cPort hPort st =
     (case st of (ctrPortMap, hostPortMap, finalMappings) \<Rightarrow>
        if cPort = 0 \<or> hPort = 0 then Inl ZeroPortInExpansion
        else
          (let testCPort = mapGet ctrPortMap cPort in
           if testCPort \<noteq> 0 \<and> testCPort \<noteq> hPort then Inl (ConflictingContainerPort cPort p)
           else
             (let ctrPortMap' = ctrPortMap(cPort \<mapsto> hPort);
                  testHPort = mapGet hostPortMap hPort in
              if testHPort \<noteq> 0 \<and> testHPort \<noteq> cPort then Inl (ConflictingHostPort hPort p)
              else
                (let hostPortMap' = hostPortMap(hPort \<mapsto> cPort) in
                 if testCPort = hPort \<and> testHPort = cPort then
                   Inr (ctrPortMap', hostPortMap', finalMappings)
                 else
                   Inr (ctrPortMap', hostPortMap',
                        finalMappings @
                          [\<lparr>cniHostPort = ucast hPort, cniContainerPort = ucast cPort,
                            cniProtocol = p, cniHostIP = origIP\<rparr>])))))"

text \<open>
  \<open>for index = 0; index < len; index++\<close> with \<open>index\<close> and \<open>len\<close> of type \<open>uint16\<close>.
\<close>

function rangeLoop ::
  "string \<Rightarrow> string \<Rightarrow> u16 \<Rightarrow> u16 \<Rightarrow> u16 \<Rightarrow> u16 \<Rightarrow>
   portMap \<times> portMap \<times> ocicni_PortMapping list \<Rightarrow>
   error + (portMap \<times> portMap \<times> ocicni_PortMapping list)" where
  "rangeLoop p origIP containerPort hostPort len index st =
     (if index < len then
        (case rangeStep p origIP (containerPort + index) (hostPort + index) st of
           Inl err \<Rightarrow> Inl err
         | Inr st' \<Rightarrow> rangeLoop p origIP containerPort hostPort len (index + 1) st')
      else Inr st)"
  by pat_completeness auto
termination
proof -
  have decr: "unat len - unat (index + 1) < unat len - unat index"
    if "index < len" for index len :: u16
  proof -
    from that have lt: "unat index < unat len"
      by (simp add: word_less_nat_alt)
    moreover have "unat len < 2 ^ 16"
      using unsigned_less [of len] by simp
    ultimately have "unat index + 1 < 2 ^ 16"
      by simp
    then have "unat (index + 1) = Suc (unat index)"
      by (simp add: unat_word_ariths)
    with lt show ?thesis
      by simp
  qed
  show ?thesis
  proof (relation "measure (\<lambda>(p, origIP, containerPort, hostPort, len, index, st). unat len - unat index)",
      goal_cases)
    case 1
    show ?case by simp
  next
    case (2 p origIP containerPort hostPort len index)
    from decr [OF 2(1)] show ?case by simp
  qed
qed

text \<open>
  \<open>for _, p := range protocols\<close>: the port maps of protocol \<open>p\<close> and \<open>hostIP\<close> are
  fetched, or made and stored when absent; the inner loop then changes them in place.
  \<open>hostPortValidate[p]\<close> is nil for a protocol that is not a key, and storing into it
  panics.
\<close>

fun protocolLoop ::
  "string \<Rightarrow> string \<Rightarrow> u16 \<Rightarrow> u16 \<Rightarrow> u16 \<Rightarrow> string list \<Rightarrow>
   validateTable \<times> validateTable \<times> ocicni_PortMapping list \<Rightarrow>
   error + (validateTable \<times> validateTable \<times> ocicni_PortMapping list)" where
  "protocolLoop hostIP origIP containerPort hostPort len [] st = Inr st"
| "protocolLoop hostIP origIP containerPort hostPort len (p # ps)
     (containerPortValidate, hostPortValidate, finalMappings) =
     (case (hostPortValidate p, containerPortValidate p) of
        (Some hostIPMap, Some ctrIPMap) \<Rightarrow>
          (let hostPortMap = portMapAt hostIPMap hostIP;
               ctrPortMap = portMapAt ctrIPMap hostIP
           in case rangeLoop p origIP containerPort hostPort len 0
                     (ctrPortMap, hostPortMap, finalMappings) of
                Inl err \<Rightarrow> Inl err
              | Inr (ctrPortMap', hostPortMap', finalMappings') \<Rightarrow>
                  protocolLoop hostIP origIP containerPort hostPort len ps
                    (containerPortValidate(p \<mapsto> ctrIPMap(hostIP \<mapsto> ctrPortMap')),
                     hostPortValidate(p \<mapsto> hostIPMap(hostIP \<mapsto> hostPortMap')),
                     finalMappings'))
      | _ \<Rightarrow> Inl NilMapPanic)"

text \<open>\<open>for _, port := range portMappings\<close>.\<close>

fun portMappingsLoop ::
  "env \<Rightarrow> PortMapping list \<Rightarrow>
   validateTable \<times> validateTable \<times> ocicni_PortMapping list \<Rightarrow>
   error + (validateTable \<times> validateTable \<times> ocicni_PortMapping list)" where
  "portMappingsLoop e [] st = Inr st"
| "portMappingsLoop e (port # rest) st =
     (case checkProtocol e (Protocol port) True of
        Inl err \<Rightarrow> Inl err
      | Inr protocols \<Rightarrow>
          (let hostIP = (if HostIP port = [] then ''0.0.0.0'' else HostIP port) in
           if \<not> ParseIP_ok e hostIP then Inl (InvalidHostIP (HostIP port))
           else
             (let len = (if Range port = 0 then 1 else Range port);
                  containerPort = ContainerPort port in
              if containerPort = 0 then Inl ZeroContainerPort
              else
                (let hostPort = (if HostPort port = 0 then containerPort else HostPort port) in
                 if (ucast (len - 1) :: u32) + ucast containerPort > 65535 then
                   Inl ContainerPortRangeOverflow
                 else if (ucast (len - 1) :: u32) + ucast hostPort > 65536 then
                   Inl HostPortRangeOverflow
                 else
                   (case protocolLoop hostIP (HostIP port) containerPort hostPort len protocols st of
                      Inl err \<Rightarrow> Inl err
                    | Inr st' \<Rightarrow> portMappingsLoop e rest st')))))"

definition emptyTable :: validateTable where
  "emptyTable = [protoTCP \<mapsto> Map.empty, protoUDP \<mapsto> Map.empty, protoSCTP \<mapsto> Map.empty]"

text \<open>
  The result is \<open>(finalMappings, containerPortValidate, hostPortValidate)\<close>, or the
  error.
\<close>

definition parsePortMapping ::
  "env \<Rightarrow> PortMapping list \<Rightarrow>
   error + (ocicni_PortMapping list \<times> validateTable \<times> validateTable)" where
  "parsePortMapping e portMappings =
     (case portMappingsLoop e portMappings (emptyTable, emptyTable, []) of
        Inl err \<Rightarrow> Inl err
      | Inr (containerPortValidate, hostPortValidate, finalMappings) \<Rightarrow>
          Inr (finalMappings, containerPortValidate, hostPortValidate))"

section \<open>createPortMappings\<close>










text \<open>
  \<open>for _, p := range protocols\<close> inside the loop over \<open>expose\<close>: the port map of
  \<open>p\<close> under \<open>"0.0.0.0"\<close> is fetched, or made and stored when absent, and \<open>p\<close> is
  appended to \<open>toExpose[port]\<close> when the port has no host port there.
\<close>

fun markLoop ::
  "u16 \<Rightarrow> string list \<Rightarrow> (u16 \<times> string list) list \<times> validateTable \<Rightarrow>
   error + ((u16 \<times> string list) list \<times> validateTable)" where
  "markLoop port [] st = Inr st"
| "markLoop port (p # ps) (toExpose, containerPortValidate) =
     (case containerPortValidate p of
        None \<Rightarrow> Inl NilMapPanic
      | Some ctrIPMap \<Rightarrow>
          (let ctrPortMap = portMapAt ctrIPMap ''0.0.0.0'';
               containerPortValidate' =
                 containerPortValidate(p \<mapsto> ctrIPMap(''0.0.0.0'' \<mapsto> ctrPortMap))
           in if mapGet ctrPortMap port = 0 then
                (let exposeProto = (case map_of toExpose port of None \<Rightarrow> [] | Some ep \<Rightarrow> ep)
                 in markLoop port ps
                      (AList.update port (exposeProto @ [p]) toExpose, containerPortValidate'))
              else markLoop port ps (toExpose, containerPortValidate')))"

text \<open>\<open>for port, proto := range expose\<close>, over the entries in the order of the iteration.\<close>

fun exposeLoop ::
  "env \<Rightarrow> (u16 \<times> string) list \<Rightarrow> (u16 \<times> string list) list \<times> validateTable \<Rightarrow>
   error + ((u16 \<times> string list) list \<times> validateTable)" where
  "exposeLoop e [] st = Inr st"
| "exposeLoop e ((port, proto) # rest) st =
     (case checkProtocol e proto False of
        Inl err \<Rightarrow> Inl (ExposeProtocolError port err)
      | Inr protocols \<Rightarrow>
          if port = 0 then Inl ExposeZeroPort
          else (case markLoop port protocols st of
                  Inl err \<Rightarrow> Inl err
                | Inr st' \<Rightarrow> exposeLoop e rest st'))"







section \<open>What the properties speak of\<close>

text \<open>
  The host IP a finalized mapping binds: the empty string stands for \<open>"0.0.0.0"\<close>, as
  in \<open>parsePortMapping\<close>.
\<close>

definition resolveIP :: "string \<Rightarrow> string" where
  "resolveIP ip = (if ip = [] then ''0.0.0.0'' else ip)"

definition hostKey :: "ocicni_PortMapping \<Rightarrow> string \<times> string \<times> i32" where
  "hostKey m = (cniProtocol m, resolveIP (cniHostIP m), cniHostPort m)"

definition ctrKey :: "ocicni_PortMapping \<Rightarrow> string \<times> string \<times> i32" where
  "ctrKey m = (cniProtocol m, resolveIP (cniHostIP m), cniContainerPort m)"

text \<open>
  The port map that a table holds for a protocol and a host IP, empty when either key
  is absent; \<open>tableGet\<close> reads it.
\<close>

definition tablePM :: "validateTable \<Rightarrow> string \<Rightarrow> string \<Rightarrow> portMap" where
  "tablePM t p ip = (case t p of None \<Rightarrow> Map.empty | Some ipMap \<Rightarrow> portMapAt ipMap ip)"

text \<open>
  Two port maps mirror each other: a claim of one, followed through the other, leads
  back, and port 0 is never claimed.
\<close>

definition pmMirror :: "portMap \<Rightarrow> portMap \<Rightarrow> bool" where
  "pmMirror cm hm \<longleftrightarrow>
     (\<forall>c. mapGet cm c \<noteq> 0 \<longrightarrow> c \<noteq> 0 \<and> mapGet hm (mapGet cm c) = c) \<and>
     (\<forall>h. mapGet hm h \<noteq> 0 \<longrightarrow> h \<noteq> 0 \<and> mapGet cm (mapGet hm h) = h)"

text \<open>
  A finalized mapping is tracked by the container-port maps \<open>G\<close> when its container
  port is claimed, under its protocol and resolved host IP, for its host port.
\<close>

definition tracked :: "(string \<Rightarrow> string \<Rightarrow> portMap) \<Rightarrow> ocicni_PortMapping \<Rightarrow> bool" where
  "tracked G m \<longleftrightarrow>
     (\<exists>c. mapGet (G (cniProtocol m) (resolveIP (cniHostIP m))) c \<noteq> 0 \<and>
          cniContainerPort m = ucast c \<and>
          cniHostPort m = ucast (mapGet (G (cniProtocol m) (resolveIP (cniHostIP m))) c))"

text \<open>The invariant of the loops of \<open>parsePortMapping\<close>.\<close>

definition parseInv ::
  "(string \<Rightarrow> string \<Rightarrow> portMap) \<Rightarrow> (string \<Rightarrow> string \<Rightarrow> portMap) \<Rightarrow>
   ocicni_PortMapping list \<Rightarrow> bool" where
  "parseInv Gc Gh fm \<longleftrightarrow>
     (\<forall>p ip. pmMirror (Gc p ip) (Gh p ip)) \<and>
     (\<forall>m \<in> set fm. tracked Gc m) \<and>
     distinct (map ctrKey fm) \<and> distinct (map hostKey fm)"

text \<open>
  The values that \<open>parsePortMapping\<close> gives its locals \<open>len\<close> and \<open>hostPort\<close> for a
  request: a range of 0 counts as 1, a host port of 0 as the container port.
\<close>

definition requestLen :: "PortMapping \<Rightarrow> u16" where
  "requestLen port = (if Range port = 0 then 1 else Range port)"

definition requestHostPort :: "PortMapping \<Rightarrow> u16" where
  "requestHostPort port = (if HostPort port = 0 then ContainerPort port else HostPort port)"

text \<open>
  An environment for the examples: two host IPs parse, the port source answers
  40000, 40001 and so on, and every iteration follows the order of insertion.
\<close>

definition sampleEnv :: env where
  "sampleEnv =
     \<lparr>ParseIP_ok = (\<lambda>s. s = ''0.0.0.0'' \<or> s = ''127.0.0.1''),
      portSource = (\<lambda>n. Some (40000 + int n)),
      rangeProtocols = (\<lambda>xs. xs),
      rangeExpose = (\<lambda>xs. xs),
      rangeToExpose = (\<lambda>xs. xs)\<rparr>"

section \<open>Evaluation\<close>

lemma iteration_orders_sampleEnv: "iteration_orders sampleEnv"
  by (simp add: iteration_orders_def sampleEnv_def)

lemma rangeProtocols_single: "iteration_orders e \<Longrightarrow> rangeProtocols e [x] = [x]"
  unfolding iteration_orders_def by (metis mset_single_iff_right)



lemma checkProtocol_tcp: "iteration_orders e \<Longrightarrow> checkProtocol e ''tcp'' b = Inr [''tcp'']"
  by (simp add: checkProtocol_def protoTCP_def rangeProtocols_single)


lemmas parse_eval =
  parsePortMapping_def emptyTable_def protoTCP_def protoUDP_def protoSCTP_def
  rangeStep_def mapGet_def portMapAt_def Let_def

section \<open>Range expansion and duplicates\<close>

text \<open>
  C8: the request with container port 8000, host port 9000, range 3 and protocol
  \<open>"tcp"\<close>, alone, is accepted, and the finalized mappings are exactly 8000 to 9000,
  8001 to 9001 and 8002 to 9002, each with protocol \<open>"tcp"\<close>.
\<close>

theorem range_expansion:
  assumes "iteration_orders e" and "ParseIP_ok e ''0.0.0.0''"
  shows "\<exists>ctr host.
    parsePortMapping e
      [\<lparr>HostIP = '''', ContainerPort = 8000, HostPort = 9000, Range = 3, Protocol = ''tcp''\<rparr>] =
    Inr ([\<lparr>cniHostPort = 9000, cniContainerPort = 8000, cniProtocol = ''tcp'', cniHostIP = ''''\<rparr>,
          \<lparr>cniHostPort = 9001, cniContainerPort = 8001, cniProtocol = ''tcp'', cniHostIP = ''''\<rparr>,
          \<lparr>cniHostPort = 9002, cniContainerPort = 8002, cniProtocol = ''tcp'', cniHostIP = ''''\<rparr>],
         ctr, host)"
  using assms by (simp add: parse_eval checkProtocol_tcp)

theorem range_expansion_witness:
  "iteration_orders sampleEnv \<and> ParseIP_ok sampleEnv ''0.0.0.0'' \<and>
   (\<exists>ctr host.
    parsePortMapping sampleEnv
      [\<lparr>HostIP = '''', ContainerPort = 8000, HostPort = 9000, Range = 3, Protocol = ''tcp''\<rparr>] =
    Inr ([\<lparr>cniHostPort = 9000, cniContainerPort = 8000, cniProtocol = ''tcp'', cniHostIP = ''''\<rparr>,
          \<lparr>cniHostPort = 9001, cniContainerPort = 8001, cniProtocol = ''tcp'', cniHostIP = ''''\<rparr>,
          \<lparr>cniHostPort = 9002, cniContainerPort = 8002, cniProtocol = ''tcp'', cniHostIP = ''''\<rparr>],
         ctr, host))"
proof -
  have ip: "ParseIP_ok sampleEnv ''0.0.0.0''"
    by (simp add: sampleEnv_def)
  from range_expansion [OF iteration_orders_sampleEnv ip] iteration_orders_sampleEnv ip
  show ?thesis by blast
qed

text \<open>
  C6: the request with container port 80, host port 8080 and protocol \<open>"tcp"\<close>, given
  twice in one list, is accepted, and the finalized list holds that pair once: the second
  occurrence is neither emitted nor rejected.
\<close>

theorem idempotent_duplicate:
  assumes "iteration_orders e" and "ParseIP_ok e ''0.0.0.0''"
  shows "\<exists>ctr host.
    parsePortMapping e
      [\<lparr>HostIP = '''', ContainerPort = 80, HostPort = 8080, Range = 0, Protocol = ''tcp''\<rparr>,
       \<lparr>HostIP = '''', ContainerPort = 80, HostPort = 8080, Range = 0, Protocol = ''tcp''\<rparr>] =
    Inr ([\<lparr>cniHostPort = 8080, cniContainerPort = 80, cniProtocol = ''tcp'', cniHostIP = ''''\<rparr>],
         ctr, host)"
  using assms by (simp add: parse_eval checkProtocol_tcp)

theorem idempotent_duplicate_witness:
  "iteration_orders sampleEnv \<and> ParseIP_ok sampleEnv ''0.0.0.0'' \<and>
   (\<exists>ctr host.
    parsePortMapping sampleEnv
      [\<lparr>HostIP = '''', ContainerPort = 80, HostPort = 8080, Range = 0, Protocol = ''tcp''\<rparr>,
       \<lparr>HostIP = '''', ContainerPort = 80, HostPort = 8080, Range = 0, Protocol = ''tcp''\<rparr>] =
    Inr ([\<lparr>cniHostPort = 8080, cniContainerPort = 80, cniProtocol = ''tcp'', cniHostIP = ''''\<rparr>],
         ctr, host))"
proof -
  have ip: "ParseIP_ok sampleEnv ''0.0.0.0''"
    by (simp add: sampleEnv_def)
  from idempotent_duplicate [OF iteration_orders_sampleEnv ip] iteration_orders_sampleEnv ip
  show ?thesis by blast
qed


section \<open>The bound on the host port range\<close>

text \<open>
  C2: a request whose host port plus range minus 1 exceeds 65535 should fail with
  \<open>HostPortRangeOverflow\<close>. The code compares with 65536: the request with container
  port 1, host port 65535 and range 2 has 65535 + 2 - 1 = 65536, passes that check, and
  fails only in the expansion, where the host port 65535 + 1 wraps to 0.
\<close>

theorem host_bound_admits_65536:
  assumes "iteration_orders e" and "ParseIP_ok e ''0.0.0.0''"
  shows "unat (65535 :: u16) + unat (2 :: u16) - 1 > 65535 \<and>
    parsePortMapping e
      [\<lparr>HostIP = '''', ContainerPort = 1, HostPort = 65535, Range = 2, Protocol = ''tcp''\<rparr>] =
    Inl ZeroPortInExpansion"
  using assms by (simp add: parse_eval checkProtocol_tcp)

theorem host_bound_admits_65536_witness:
  "iteration_orders sampleEnv \<and> ParseIP_ok sampleEnv ''0.0.0.0'' \<and>
   unat (65535 :: u16) + unat (2 :: u16) - 1 > 65535 \<and>
   parsePortMapping sampleEnv
      [\<lparr>HostIP = '''', ContainerPort = 1, HostPort = 65535, Range = 2, Protocol = ''tcp''\<rparr>] =
   Inl ZeroPortInExpansion"
proof -
  have ip: "ParseIP_ok sampleEnv ''0.0.0.0''"
    by (simp add: sampleEnv_def)
  from host_bound_admits_65536 [OF iteration_orders_sampleEnv ip] iteration_orders_sampleEnv ip
  show ?thesis by blast
qed

section \<open>SCTP\<close>









section \<open>The merge of the two sources of exposed ports\<close>







section \<open>The invariant of parsePortMapping\<close>

lemma mapGet_upd: "mapGet (m(k \<mapsto> v)) k' = (if k' = k then v else mapGet m k')"
  by (simp add: mapGet_def)

lemma mapGet_empty: "mapGet Map.empty k = 0"
  by (simp add: mapGet_def)

lemma tableGet_tablePM: "tableGet t p ip k = mapGet (tablePM t p ip) k"
  by (simp add: tableGet_def tablePM_def portMapAt_def mapGet_def split: option.splits)

lemma tablePM_upd:
  "t p = Some ipMap \<Longrightarrow>
   tablePM (t(p \<mapsto> ipMap(ip \<mapsto> m))) = (tablePM t)(p := (tablePM t p)(ip := m))"
  by (rule ext, rule ext) (simp add: tablePM_def portMapAt_def)

lemma tablePM_emptyTable: "tablePM emptyTable p ip = Map.empty"
  by (simp add: tablePM_def emptyTable_def portMapAt_def)

lemma pmMirrorD1: "pmMirror cm hm \<Longrightarrow> mapGet cm c \<noteq> 0 \<Longrightarrow> c \<noteq> 0 \<and> mapGet hm (mapGet cm c) = c"
  unfolding pmMirror_def by blast

lemma pmMirrorD2: "pmMirror cm hm \<Longrightarrow> mapGet hm h \<noteq> 0 \<Longrightarrow> h \<noteq> 0 \<and> mapGet cm (mapGet hm h) = h"
  unfolding pmMirror_def by blast

lemma pmMirror_update:
  assumes "pmMirror cm hm" and "c \<noteq> 0" and "h \<noteq> 0"
    and "mapGet cm c = 0 \<or> mapGet cm c = h"
    and "mapGet hm h = 0 \<or> mapGet hm h = c"
  shows "pmMirror (cm(c \<mapsto> h)) (hm(h \<mapsto> c))"
  unfolding pmMirror_def
proof (intro conjI allI impI)
  fix c'
  assume nz: "mapGet (cm(c \<mapsto> h)) c' \<noteq> 0"
  show "c' \<noteq> 0"
  proof (cases "c' = c")
    case True
    with assms(2) show ?thesis by simp
  next
    case False
    with nz have "mapGet cm c' \<noteq> 0" by (simp add: mapGet_upd)
    from pmMirrorD1 [OF assms(1) this] show ?thesis by simp
  qed
  show "mapGet (hm(h \<mapsto> c)) (mapGet (cm(c \<mapsto> h)) c') = c'"
  proof (cases "c' = c")
    case True
    then show ?thesis by (simp add: mapGet_upd)
  next
    case False
    with nz have a: "mapGet cm c' \<noteq> 0" by (simp add: mapGet_upd)
    from pmMirrorD1 [OF assms(1) a] have b: "mapGet hm (mapGet cm c') = c'" by simp
    have "mapGet cm c' \<noteq> h"
    proof
      assume eq: "mapGet cm c' = h"
      with b have "mapGet hm h = c'" by simp
      moreover from pmMirrorD1 [OF assms(1) a] have "c' \<noteq> 0" by simp
      ultimately show False using assms(5) False by simp
    qed
    with False b show ?thesis by (simp add: mapGet_upd)
  qed
next
  fix h'
  assume nz: "mapGet (hm(h \<mapsto> c)) h' \<noteq> 0"
  show "h' \<noteq> 0"
  proof (cases "h' = h")
    case True
    with assms(3) show ?thesis by simp
  next
    case False
    with nz have "mapGet hm h' \<noteq> 0" by (simp add: mapGet_upd)
    from pmMirrorD2 [OF assms(1) this] show ?thesis by simp
  qed
  show "mapGet (cm(c \<mapsto> h)) (mapGet (hm(h \<mapsto> c)) h') = h'"
  proof (cases "h' = h")
    case True
    then show ?thesis by (simp add: mapGet_upd)
  next
    case False
    with nz have a: "mapGet hm h' \<noteq> 0" by (simp add: mapGet_upd)
    from pmMirrorD2 [OF assms(1) a] have b: "mapGet cm (mapGet hm h') = h'" by simp
    have "mapGet hm h' \<noteq> c"
    proof
      assume eq: "mapGet hm h' = c"
      with b have "mapGet cm c = h'" by simp
      moreover from pmMirrorD2 [OF assms(1) a] have "h' \<noteq> 0" by simp
      ultimately show False using assms(4) False by simp
    qed
    with False b show ?thesis by (simp add: mapGet_upd)
  qed
qed

text \<open>What a successful step of the inner loop did.\<close>

lemma rangeStep_Inr:
  assumes "rangeStep p origIP c h (cm, hm, fm) = Inr (cm', hm', fm')"
  shows "c \<noteq> 0" and "h \<noteq> 0"
    and "mapGet cm c = 0 \<or> mapGet cm c = h"
    and "mapGet hm h = 0 \<or> mapGet hm h = c"
    and "cm' = cm(c \<mapsto> h)" and "hm' = hm(h \<mapsto> c)"
    and "fm' = (if mapGet cm c = h \<and> mapGet hm h = c then fm
                else fm @ [\<lparr>cniHostPort = ucast h, cniContainerPort = ucast c,
                            cniProtocol = p, cniHostIP = origIP\<rparr>])"
proof -
  from assms have z: "\<not> (c = 0 \<or> h = 0)"
    by (simp add: rangeStep_def split: if_splits)
  with assms have a: "\<not> (mapGet cm c \<noteq> 0 \<and> mapGet cm c \<noteq> h)"
    by (simp add: rangeStep_def Let_def split: if_splits)
  with assms z have b: "\<not> (mapGet hm h \<noteq> 0 \<and> mapGet hm h \<noteq> c)"
    by (simp add: rangeStep_def Let_def split: if_splits)
  from z show "c \<noteq> 0" and "h \<noteq> 0" by simp_all
  from a show "mapGet cm c = 0 \<or> mapGet cm c = h" by blast
  from b show "mapGet hm h = 0 \<or> mapGet hm h = c" by blast
  from assms z a b show "cm' = cm(c \<mapsto> h)"
    by (simp add: rangeStep_def Let_def split: if_splits)
  from assms z a b show "hm' = hm(h \<mapsto> c)"
    by (simp add: rangeStep_def Let_def split: if_splits)
  from assms z a b show "fm' = (if mapGet cm c = h \<and> mapGet hm h = c then fm
                else fm @ [\<lparr>cniHostPort = ucast h, cniContainerPort = ucast c,
                            cniProtocol = p, cniHostIP = origIP\<rparr>])"
    by (simp add: rangeStep_def Let_def split: if_splits) blast
qed

lemma ucast_u16_back: "(ucast (ucast (w :: u16) :: i32) :: u16) = w"
  by (simp add: ucast_up_ucast_id is_up)

lemma ucast_u16_inj: "(ucast (a :: u16) :: i32) = ucast (b :: u16) \<Longrightarrow> a = b"
proof -
  assume "(ucast a :: i32) = ucast b"
  then have "(ucast (ucast a :: i32) :: u16) = ucast (ucast b :: i32)" by simp
  then show ?thesis by (simp only: ucast_u16_back)
qed

lemma ucast_of_int_u16: "(ucast (word_of_int c :: i32) :: u16) = word_of_int c"
  by transfer (simp add: take_bit_take_bit min_def)

lemma sint_ucast_u16: "sint (ucast (w :: u16) :: i32) = uint w"
proof -
  have "uint w < 2 ^ 16" using uint_lt2p [of w] by simp
  then show ?thesis
    by transfer (simp add: signed_take_bit_eq_if_positive take_bit_int_eq_self bit_iff_odd)
qed

lemma trackedI:
  "mapGet (G (cniProtocol m) (resolveIP (cniHostIP m))) c \<noteq> 0 \<Longrightarrow>
   cniContainerPort m = ucast c \<Longrightarrow>
   cniHostPort m = ucast (mapGet (G (cniProtocol m) (resolveIP (cniHostIP m))) c) \<Longrightarrow>
   tracked G m"
  unfolding tracked_def by blast

lemma trackedE:
  assumes "tracked G m"
  obtains c where "mapGet (G (cniProtocol m) (resolveIP (cniHostIP m))) c \<noteq> 0"
    and "cniContainerPort m = ucast c"
    and "cniHostPort m = ucast (mapGet (G (cniProtocol m) (resolveIP (cniHostIP m))) c)"
  using assms unfolding tracked_def by blast

text \<open>A tracked mapping stays tracked when a port map gains the pair the step checked.\<close>

lemma tracked_update:
  assumes "tracked Gc m" and "Gc p ip = cm"
    and "mapGet cm c = 0 \<or> mapGet cm c = h"
  shows "tracked (Gc(p := (Gc p)(ip := cm(c \<mapsto> h)))) m"
proof -
  let ?G' = "Gc(p := (Gc p)(ip := cm(c \<mapsto> h)))"
  let ?q = "cniProtocol m" and ?i = "resolveIP (cniHostIP m)"
  from assms(1) obtain c' where c': "mapGet (Gc ?q ?i) c' \<noteq> 0"
    "cniContainerPort m = ucast c'" "cniHostPort m = ucast (mapGet (Gc ?q ?i) c')"
    by (rule trackedE)
  have "mapGet (?G' ?q ?i) c' = mapGet (Gc ?q ?i) c'"
  proof (cases "?q = p \<and> ?i = ip")
    case True
    with assms(2) have g: "Gc ?q ?i = cm" and g': "?G' ?q ?i = cm(c \<mapsto> h)" by simp_all
    show ?thesis
    proof (cases "c' = c")
      case True
      with c'(1) g assms(3) have "mapGet cm c = h" by auto
      with True g g' show ?thesis by (simp add: mapGet_upd)
    next
      case False
      with g g' show ?thesis by (simp add: mapGet_upd)
    qed
  next
    case False
    then have "?G' ?q ?i = Gc ?q ?i" by auto
    then show ?thesis by simp
  qed
  with c' show ?thesis by (intro trackedI [of _ _ c']) simp_all
qed

lemma parseInvD:
  assumes "parseInv Gc Gh fm"
  shows "pmMirror (Gc p ip) (Gh p ip)" and "m \<in> set fm \<Longrightarrow> tracked Gc m"
    and "distinct (map ctrKey fm)" and "distinct (map hostKey fm)"
  using assms unfolding parseInv_def by blast+

lemma parseInvI:
  assumes "\<And>p ip. pmMirror (Gc p ip) (Gh p ip)" and "\<And>m. m \<in> set fm \<Longrightarrow> tracked Gc m"
    and "distinct (map ctrKey fm)" and "distinct (map hostKey fm)"
  shows "parseInv Gc Gh fm"
  using assms unfolding parseInv_def by blast

lemma rangeStep_inv:
  assumes inv: "parseInv Gc Gh fm"
    and step: "rangeStep p origIP c h (Gc p ip, Gh p ip, fm) = Inr (cm', hm', fm')"
    and ip: "ip = resolveIP origIP"
  shows "parseInv (Gc(p := (Gc p)(ip := cm'))) (Gh(p := (Gh p)(ip := hm'))) fm'"
proof -
  let ?cm = "Gc p ip" and ?hm = "Gh p ip"
  let ?new = "\<lparr>cniHostPort = ucast h, cniContainerPort = ucast c,
                cniProtocol = p, cniHostIP = origIP\<rparr>"
  note r = rangeStep_Inr [OF step]
  let ?Gc' = "Gc(p := (Gc p)(ip := ?cm(c \<mapsto> h)))"
  let ?Gh' = "Gh(p := (Gh p)(ip := ?hm(h \<mapsto> c)))"
  have mir: "pmMirror ?cm ?hm" by (rule parseInvD(1) [OF inv])
  have mirror': "pmMirror (?Gc' q i) (?Gh' q i)" for q i
  proof (cases "q = p \<and> i = ip")
    case True
    then have "?Gc' q i = ?cm(c \<mapsto> h)" and "?Gh' q i = ?hm(h \<mapsto> c)" by simp_all
    with pmMirror_update [OF mir r(1) r(2) r(3) r(4)] show ?thesis by simp
  next
    case False
    then have "?Gc' q i = Gc q i" and "?Gh' q i = Gh q i" by auto
    with parseInvD(1) [OF inv, of q i] show ?thesis by simp
  qed
  have old: "tracked ?Gc' m" if "m \<in> set fm" for m
    using tracked_update [OF parseInvD(2) [OF inv that] refl r(3)] .
  have new: "tracked ?Gc' ?new"
  proof (rule trackedI [of _ _ c])
    have g: "?Gc' (cniProtocol ?new) (resolveIP (cniHostIP ?new)) = ?cm(c \<mapsto> h)"
      using ip by simp
    show "mapGet (?Gc' (cniProtocol ?new) (resolveIP (cniHostIP ?new))) c \<noteq> 0"
      unfolding g using r(2) by (simp add: mapGet_upd)
    show "cniContainerPort ?new = ucast c" by simp
    show "cniHostPort ?new =
        ucast (mapGet (?Gc' (cniProtocol ?new) (resolveIP (cniHostIP ?new))) c)"
      unfolding g by (simp add: mapGet_upd)
  qed
  show ?thesis
  proof (cases "mapGet ?cm c = h \<and> mapGet ?hm h = c")
    case True
    with r(7) have fm': "fm' = fm" by simp
    show ?thesis unfolding r(5) r(6) fm'
    proof (rule parseInvI)
      show "pmMirror (?Gc' q i) (?Gh' q i)" for q i by (rule mirror')
      show "tracked ?Gc' m" if "m \<in> set fm" for m using that by (rule old)
      show "distinct (map ctrKey fm)" by (rule parseInvD(3) [OF inv])
      show "distinct (map hostKey fm)" by (rule parseInvD(4) [OF inv])
    qed
  next
    case False
    with r(7) have fm': "fm' = fm @ [?new]" by simp
    have c0: "mapGet ?cm c = 0"
    proof (rule ccontr)
      assume nz: "mapGet ?cm c \<noteq> 0"
      with r(3) have eq: "mapGet ?cm c = h" by simp
      from pmMirrorD1 [OF mir nz] eq have "mapGet ?hm h = c" by simp
      with eq False show False by simp
    qed
    have h0: "mapGet ?hm h = 0"
    proof (rule ccontr)
      assume nz: "mapGet ?hm h \<noteq> 0"
      with r(4) have eq: "mapGet ?hm h = c" by simp
      from pmMirrorD2 [OF mir nz] eq have "mapGet ?cm c = h" by simp
      with c0 r(2) show False by simp
    qed
    have ck: "ctrKey ?new \<notin> set (map ctrKey fm)"
    proof
      assume "ctrKey ?new \<in> set (map ctrKey fm)"
      then obtain m where m: "m \<in> set fm" and k: "ctrKey m = ctrKey ?new" by auto
      from k ip have q: "cniProtocol m = p" "resolveIP (cniHostIP m) = ip"
        "cniContainerPort m = ucast c" by (simp_all add: ctrKey_def)
      from parseInvD(2) [OF inv m] obtain c' where
        c': "mapGet (Gc (cniProtocol m) (resolveIP (cniHostIP m))) c' \<noteq> 0"
        "cniContainerPort m = ucast c'" by (rule trackedE)
      from c'(2) q(3) have "c' = c" by (simp add: ucast_u16_inj)
      with c'(1) q c0 show False by simp
    qed
    have hk: "hostKey ?new \<notin> set (map hostKey fm)"
    proof
      assume "hostKey ?new \<in> set (map hostKey fm)"
      then obtain m where m: "m \<in> set fm" and k: "hostKey m = hostKey ?new" by auto
      from k ip have q: "cniProtocol m = p" "resolveIP (cniHostIP m) = ip"
        "cniHostPort m = ucast h" by (simp_all add: hostKey_def)
      from parseInvD(2) [OF inv m] obtain c' where
        c': "mapGet (Gc (cniProtocol m) (resolveIP (cniHostIP m))) c' \<noteq> 0"
        "cniHostPort m = ucast (mapGet (Gc (cniProtocol m) (resolveIP (cniHostIP m))) c')"
        by (rule trackedE)
      from c' q have nz: "mapGet ?cm c' \<noteq> 0" and "ucast (mapGet ?cm c') = (ucast h :: i32)"
        by simp_all
      then have eq: "mapGet ?cm c' = h" by (simp add: ucast_u16_inj)
      from pmMirrorD1 [OF mir nz] eq have "c' \<noteq> 0" "mapGet ?hm h = c'" by simp_all
      with h0 show False by simp
    qed
    have d1: "distinct (map ctrKey fm')"
      using fm' ck parseInvD(3) [OF inv] by simp
    have d2: "distinct (map hostKey fm')"
      using fm' hk parseInvD(4) [OF inv] by simp
    have tr: "tracked ?Gc' m" if "m \<in> set fm'" for m
      using that fm' old new by auto
    show ?thesis unfolding r(5) r(6)
    proof (rule parseInvI)
      show "pmMirror (?Gc' q i) (?Gh' q i)" for q i by (rule mirror')
      show "tracked ?Gc' m" if "m \<in> set fm'" for m using that by (rule tr)
      show "distinct (map ctrKey fm')" by (rule d1)
      show "distinct (map hostKey fm')" by (rule d2)
    qed
  qed
qed

declare rangeLoop.simps [simp del]

lemma rangeLoop_inv:
  "rangeLoop p origIP cp hp len index st = Inr st' \<Longrightarrow>
   parseInv Gc Gh (snd (snd st)) \<Longrightarrow> Gc p ip = fst st \<Longrightarrow> Gh p ip = fst (snd st) \<Longrightarrow>
   ip = resolveIP origIP \<Longrightarrow>
   parseInv (Gc(p := (Gc p)(ip := fst st'))) (Gh(p := (Gh p)(ip := fst (snd st'))))
     (snd (snd st'))"
proof (induction p origIP cp hp len index st arbitrary: Gc Gh rule: rangeLoop.induct)
  case (1 p origIP cp hp len index st)
  show ?case
  proof (cases "index < len")
    case False
    with "1.prems"(1) have eq: "st' = st"
      by (simp add: rangeLoop.simps [of p origIP cp hp len index st])
    have "(Gc p)(ip := fst st) = Gc p"
      unfolding "1.prems"(3) [symmetric] by (rule fun_upd_triv)
    then have c: "Gc(p := (Gc p)(ip := fst st)) = Gc"
      by (simp only: fun_upd_triv)
    have "(Gh p)(ip := fst (snd st)) = Gh p"
      unfolding "1.prems"(4) [symmetric] by (rule fun_upd_triv)
    then have h: "Gh(p := (Gh p)(ip := fst (snd st))) = Gh"
      by (simp only: fun_upd_triv)
    from "1.prems"(2) show ?thesis
      unfolding eq c h .
  next
    case True
    with "1.prems"(1) obtain st1 where
      s1: "rangeStep p origIP (cp + index) (hp + index) st = Inr st1"
      and rest: "rangeLoop p origIP cp hp len (index + 1) st1 = Inr st'"
      by (simp add: rangeLoop.simps [of p origIP cp hp len index st] split: sum.splits)
    obtain cm hm fm where st: "st = (cm, hm, fm)" by (cases st)
    obtain cm1 hm1 fm1 where st1: "st1 = (cm1, hm1, fm1)" by (cases st1)
    let ?Gc1 = "Gc(p := (Gc p)(ip := cm1))" and ?Gh1 = "Gh(p := (Gh p)(ip := hm1))"
    from s1 st st1 "1.prems"(3,4)
    have s0: "rangeStep p origIP (cp + index) (hp + index) (Gc p ip, Gh p ip, fm) =
        Inr (cm1, hm1, fm1)" by simp
    from "1.prems"(2) st have i0: "parseInv Gc Gh fm" by simp
    from i0 s0 "1.prems"(5) have "parseInv ?Gc1 ?Gh1 fm1"
      by (rule rangeStep_inv)
    then have inv1: "parseInv ?Gc1 ?Gh1 (snd (snd st1))" by (simp add: st1)
    have g1: "?Gc1 p ip = fst st1" and g2: "?Gh1 p ip = fst (snd st1)"
      by (simp_all add: st1)
    have "parseInv (?Gc1(p := (?Gc1 p)(ip := fst st'))) (?Gh1(p := (?Gh1 p)(ip := fst (snd st'))))
        (snd (snd st'))"
      using True s1 rest inv1 g1 g2 "1.prems"(5) by (rule "1.IH")
    then show ?thesis by (simp only: fun_upd_same fun_upd_upd)
  qed
qed

lemma protocolLoop_inv:
  "protocolLoop hostIP origIP cp hp len ps (ctr, host, fm) = Inr (ctr', host', fm') \<Longrightarrow>
   hostIP = resolveIP origIP \<Longrightarrow>
   parseInv (tablePM ctr) (tablePM host) fm \<Longrightarrow>
   parseInv (tablePM ctr') (tablePM host') fm'"
proof (induction ps arbitrary: ctr host fm)
  case Nil
  then show ?case by simp
next
  case (Cons p ps)
  from Cons.prems(1) obtain hI cI where hI: "host p = Some hI" and cI: "ctr p = Some cI"
    by (auto split: option.splits)
  let ?cm = "portMapAt cI hostIP" and ?hm = "portMapAt hI hostIP"
  from Cons.prems(1) hI cI obtain cm' hm' fm1 where
    rl: "rangeLoop p origIP cp hp len 0 (?cm, ?hm, fm) = Inr (cm', hm', fm1)"
    and rest: "protocolLoop hostIP origIP cp hp len ps
       (ctr(p \<mapsto> cI(hostIP \<mapsto> cm')), host(p \<mapsto> hI(hostIP \<mapsto> hm')), fm1) =
       Inr (ctr', host', fm')"
    by (auto simp: Let_def split: sum.splits)
  have a: "tablePM ctr p hostIP = ?cm" using cI by (simp add: tablePM_def)
  have b: "tablePM host p hostIP = ?hm" using hI by (simp add: tablePM_def)
  have i0: "parseInv (tablePM ctr) (tablePM host) (snd (snd (?cm, ?hm, fm)))"
    using Cons.prems(3) by simp
  have a': "tablePM ctr p hostIP = fst (?cm, ?hm, fm)" using a by simp
  have b': "tablePM host p hostIP = fst (snd (?cm, ?hm, fm))" using b by simp
  have "parseInv ((tablePM ctr)(p := (tablePM ctr p)(hostIP := fst (cm', hm', fm1))))
      ((tablePM host)(p := (tablePM host p)(hostIP := fst (snd (cm', hm', fm1)))))
      (snd (snd (cm', hm', fm1)))"
    using rl i0 a' b' Cons.prems(2) by (rule rangeLoop_inv)
  then have "parseInv ((tablePM ctr)(p := (tablePM ctr p)(hostIP := cm')))
      ((tablePM host)(p := (tablePM host p)(hostIP := hm'))) fm1"
    by simp
  then have "parseInv (tablePM (ctr(p \<mapsto> cI(hostIP \<mapsto> cm'))))
      (tablePM (host(p \<mapsto> hI(hostIP \<mapsto> hm')))) fm1"
    by (simp only: tablePM_upd [of ctr p cI, OF cI] tablePM_upd [of host p hI, OF hI])
  from Cons.IH [OF rest Cons.prems(2) this] show ?case .
qed

lemma portMappingsLoop_inv:
  "portMappingsLoop e pms (ctr, host, fm) = Inr (ctr', host', fm') \<Longrightarrow>
   parseInv (tablePM ctr) (tablePM host) fm \<Longrightarrow>
   parseInv (tablePM ctr') (tablePM host') fm'"
proof (induction pms arbitrary: ctr host fm)
  case Nil
  then show ?case by simp
next
  case (Cons port rest)
  let ?hostIP = "if HostIP port = [] then ''0.0.0.0'' else HostIP port"
  let ?len = "if Range port = 0 then 1 else Range port"
  let ?hp = "if HostPort port = 0 then ContainerPort port else HostPort port"
  from Cons.prems(1) obtain protocols st1 where
    pl: "protocolLoop ?hostIP (HostIP port) (ContainerPort port) ?hp ?len protocols
           (ctr, host, fm) = Inr st1"
    and r: "portMappingsLoop e rest st1 = Inr (ctr', host', fm')"
    by (simp add: Let_def split: sum.splits if_splits)
  obtain ctr1 host1 fm1 where st1: "st1 = (ctr1, host1, fm1)" by (cases st1)
  have "?hostIP = resolveIP (HostIP port)" by (simp add: resolveIP_def)
  from protocolLoop_inv [OF pl [unfolded st1] this Cons.prems(2)]
  have "parseInv (tablePM ctr1) (tablePM host1) fm1" .
  from Cons.IH [OF r [unfolded st1] this] show ?case .
qed

lemma pmMirror_empty: "pmMirror Map.empty Map.empty"
  unfolding pmMirror_def by (simp add: mapGet_empty)

lemma parsePortMapping_inv:
  assumes "parsePortMapping e pms = Inr (fm, ctr, host)"
  shows "parseInv (tablePM ctr) (tablePM host) fm"
proof -
  from assms have "portMappingsLoop e pms (emptyTable, emptyTable, []) = Inr (ctr, host, fm)"
    by (auto simp: parsePortMapping_def split: sum.splits)
  moreover have "parseInv (tablePM emptyTable) (tablePM emptyTable) []"
    by (rule parseInvI) (simp_all add: tablePM_emptyTable pmMirror_empty)
  ultimately show ?thesis by (rule portMappingsLoop_inv)
qed


section \<open>The two tables mirror each other\<close>

text \<open>
  C4: when \<open>parsePortMapping\<close> returns its tables, then for every protocol and host
  IP, a container port that the container table maps to a host port other than 0 is what
  the host table maps that host port to, and a host port that the host table maps to a
  container port other than 0 is what the container table maps that container port to;
  0 stands for no claim.
\<close>

theorem tables_mirror:
  assumes "parsePortMapping e pms = Inr (fm, ctr, host)"
  shows "(\<forall>p ip c. tableGet ctr p ip c \<noteq> 0 \<longrightarrow>
            tableGet host p ip (tableGet ctr p ip c) = c) \<and>
         (\<forall>p ip h. tableGet host p ip h \<noteq> 0 \<longrightarrow>
            tableGet ctr p ip (tableGet host p ip h) = h)"
proof -
  from parsePortMapping_inv [OF assms]
  have mir: "pmMirror (tablePM ctr p ip) (tablePM host p ip)" for p ip
    by (rule parseInvD(1))
  show ?thesis
  proof (intro conjI allI impI)
    fix p ip c
    assume a: "tableGet ctr p ip c \<noteq> 0"
    from pmMirrorD1 [OF mir a [unfolded tableGet_tablePM]]
    show "tableGet host p ip (tableGet ctr p ip c) = c"
      unfolding tableGet_tablePM by blast
  next
    fix p ip h
    assume a: "tableGet host p ip h \<noteq> 0"
    from pmMirrorD2 [OF mir a [unfolded tableGet_tablePM]]
    show "tableGet ctr p ip (tableGet host p ip h) = h"
      unfolding tableGet_tablePM by blast
  qed
qed

theorem tables_mirror_witness:
  "parsePortMapping sampleEnv
     [\<lparr>HostIP = '''', ContainerPort = 80, HostPort = 8080, Range = 0, Protocol = ''tcp''\<rparr>] =
   Inr ([\<lparr>cniHostPort = 8080, cniContainerPort = 80, cniProtocol = ''tcp'', cniHostIP = ''''\<rparr>],
        emptyTable(''tcp'' \<mapsto> [''0.0.0.0'' \<mapsto> [80 \<mapsto> 8080]]),
        emptyTable(''tcp'' \<mapsto> [''0.0.0.0'' \<mapsto> [8080 \<mapsto> 80]])) \<and>
   tableGet (emptyTable(''tcp'' \<mapsto> [''0.0.0.0'' \<mapsto> [80 \<mapsto> 8080]])) ''tcp'' ''0.0.0.0'' 80 \<noteq> 0 \<and>
   tableGet (emptyTable(''tcp'' \<mapsto> [''0.0.0.0'' \<mapsto> [8080 \<mapsto> 80]])) ''tcp'' ''0.0.0.0''
     (tableGet (emptyTable(''tcp'' \<mapsto> [''0.0.0.0'' \<mapsto> [80 \<mapsto> 8080]])) ''tcp'' ''0.0.0.0'' 80) = 80 \<and>
   tableGet (emptyTable(''tcp'' \<mapsto> [''0.0.0.0'' \<mapsto> [8080 \<mapsto> 80]])) ''tcp'' ''0.0.0.0'' 8080 \<noteq> 0 \<and>
   tableGet (emptyTable(''tcp'' \<mapsto> [''0.0.0.0'' \<mapsto> [80 \<mapsto> 8080]])) ''tcp'' ''0.0.0.0''
     (tableGet (emptyTable(''tcp'' \<mapsto> [''0.0.0.0'' \<mapsto> [8080 \<mapsto> 80]])) ''tcp'' ''0.0.0.0'' 8080) = 8080"
proof -
  let ?ctr = "emptyTable(''tcp'' \<mapsto> [''0.0.0.0'' \<mapsto> [80 \<mapsto> 8080 :: u16]])"
  let ?host = "emptyTable(''tcp'' \<mapsto> [''0.0.0.0'' \<mapsto> [8080 \<mapsto> 80 :: u16]])"
  have ip: "ParseIP_ok sampleEnv ''0.0.0.0''"
    by (simp add: sampleEnv_def)
  have run: "parsePortMapping sampleEnv
     [\<lparr>HostIP = '''', ContainerPort = 80, HostPort = 8080, Range = 0, Protocol = ''tcp''\<rparr>] =
   Inr ([\<lparr>cniHostPort = 8080, cniContainerPort = 80, cniProtocol = ''tcp'', cniHostIP = ''''\<rparr>],
        ?ctr, ?host)"
    using ip
    by (simp add: parse_eval rangeLoop.simps checkProtocol_tcp [OF iteration_orders_sampleEnv])
  have c: "tableGet ?ctr ''tcp'' ''0.0.0.0'' 80 \<noteq> 0"
    by (simp add: tableGet_def mapGet_def)
  have h: "tableGet ?host ''tcp'' ''0.0.0.0'' 8080 \<noteq> 0"
    by (simp add: tableGet_def mapGet_def)
  from tables_mirror [OF run] c
  have m1: "tableGet ?host ''tcp'' ''0.0.0.0'' (tableGet ?ctr ''tcp'' ''0.0.0.0'' 80) = 80"
    by blast
  from tables_mirror [OF run] h
  have m2: "tableGet ?ctr ''tcp'' ''0.0.0.0'' (tableGet ?host ''tcp'' ''0.0.0.0'' 8080) = 8080"
    by blast
  from run c m1 h m2 show ?thesis by blast
qed


section \<open>Ports of the finalized mappings, and the bound on the host port range\<close>

lemma port_in_range:
  assumes "(w :: u16) \<noteq> 0"
  shows "1 \<le> sint (ucast w :: i32) \<and> sint (ucast w :: i32) \<le> 65535"
proof -
  have lt: "uint w < 2 ^ 16" using uint_lt2p [of w] by simp
  have ge: "0 \<le> uint w" by (rule uint_ge_0)
  from assms have "uint w \<noteq> 0" by (simp add: uint_0_iff)
  with ge have "1 \<le> uint w" by linarith
  with lt show ?thesis by (simp add: sint_ucast_u16)
qed

lemma unat_Suc_index:
  assumes "(index :: u16) < len"
  shows "unat (index + 1) = Suc (unat index)"
proof -
  from assms have lt: "unat index < unat len" by (simp add: word_less_nat_alt)
  moreover have "unat len < 2 ^ 16" using unsigned_less [of len] by simp
  ultimately have "unat index + 1 < 2 ^ 16" by simp
  then show ?thesis by (simp add: unat_word_ariths)
qed

lemma last_index:
  assumes "(index :: u16) < len" and "\<not> index + 1 < len"
  shows "index = len - 1"
proof -
  from assms(1) have "index + 1 \<le> len" by (rule inc_le)
  with assms(2) have eq: "len = index + 1" by simp
  show ?thesis unfolding eq by simp
qed

lemma index_less_Suc: "(index :: u16) < len \<Longrightarrow> index < index + 1"
  by (simp add: word_less_nat_alt unat_Suc_index)

lemma less_Suc_cases:
  assumes "(j :: u16) < index + 1" and "index < len"
  shows "j < index \<or> j = index"
proof -
  from assms have "unat j < Suc (unat index)"
    by (simp add: word_less_nat_alt unat_Suc_index)
  then have "unat j < unat index \<or> unat j = unat index" by linarith
  then show ?thesis by (simp add: word_less_nat_alt word_unat_eq_iff)
qed

lemma unat_pred:
  assumes "(len :: u16) \<noteq> 0"
  shows "unat (len - 1) = unat len - 1"
  using assms by (rule unat_minus_one)

lemma boundary_wraps:
  assumes "unat (hp :: u16) + unat (len :: u16) - 1 = 65536" and "len \<noteq> 0"
  shows "hp + (len - 1) = 0"
proof -
  from assms(2) have pos: "0 < unat len" by (simp add: unat_gt_0)
  from assms(1) pos have "unat hp + (unat len - 1) = 65536" by linarith
  then have "unat hp + unat (len - 1) = 65536" by (simp only: unat_pred [OF assms(2)])
  then have "unat (hp + (len - 1)) = 0" by (simp add: unat_word_ariths)
  then show ?thesis by (simp only: unat_0_iff)
qed

lemma no_wrap_nonzero:
  assumes "(cp :: u16) \<noteq> 0" and "index < len" and "unat (len - 1) + unat cp \<le> 65535"
  shows "cp + index \<noteq> 0"
proof -
  from assms(2) have lt: "unat index < unat len" by (simp add: word_less_nat_alt)
  then have "len \<noteq> 0" by auto
  then have "unat (len - 1) = unat len - 1" by (rule unat_pred)
  with lt assms(3) have b: "unat cp + unat index < 2 ^ 16" by simp
  from assms(1) have "0 < unat cp" by (simp add: unat_gt_0)
  with b have "unat (cp + index) \<noteq> 0" by (simp add: unat_word_ariths)
  then show ?thesis by (simp only: unat_0_iff not_False_eq_True)
qed

lemma unat_ucast_u16: "unat (ucast (a :: u16) :: u32) = unat a"
proof -
  have "unat a < 2 ^ 16" using unsigned_less [of a] by simp
  then show ?thesis by (simp add: unsigned_ucast_eq take_bit_nat_eq_self)
qed

lemma u32_sum: "unat ((ucast (a :: u16) :: u32) + ucast (b :: u16)) = unat a + unat b"
proof -
  have "unat a < 2 ^ 16" using unsigned_less [of a] by simp
  moreover have "unat b < 2 ^ 16" using unsigned_less [of b] by simp
  ultimately have "unat a + unat b < 2 ^ 32" by simp
  then show ?thesis by (simp add: unat_word_ariths unat_ucast_u16)
qed

lemma u32_bound_65535:
  "((ucast (a :: u16) :: u32) + ucast (b :: u16) > 65535) = (unat a + unat b > 65535)"
  by (simp add: word_less_nat_alt u32_sum)

lemma u32_bound_65536:
  "((ucast (a :: u16) :: u32) + ucast (b :: u16) > 65536) = (unat a + unat b > 65536)"
  by (simp add: word_less_nat_alt u32_sum)

lemma rangeLoop_boundary:
  "index < len \<Longrightarrow> hp + (len - 1) = 0 \<Longrightarrow>
   \<exists>err. rangeLoop p origIP cp hp len index st = Inl err"
proof (induction p origIP cp hp len index st rule: rangeLoop.induct)
  case (1 p origIP cp hp len index st)
  show ?case
  proof (cases "rangeStep p origIP (cp + index) (hp + index) st")
    case (Inl err)
    with "1.prems"(1) show ?thesis
      by (simp add: rangeLoop.simps [of p origIP cp hp len index st])
  next
    case (Inr st1)
    have more: "index + 1 < len"
    proof (rule ccontr)
      assume "\<not> index + 1 < len"
      with "1.prems"(1) have "index = len - 1" by (rule last_index)
      with "1.prems"(2) have "hp + index = 0" by simp
      with Inr show False by (simp add: rangeStep_def split: prod.splits)
    qed
    from "1.IH" [OF "1.prems"(1) Inr more "1.prems"(2)] Inr "1.prems"(1) show ?thesis
      by (simp add: rangeLoop.simps [of p origIP cp hp len index st])
  qed
qed

lemma rangeLoop_fresh:
  "index < len \<Longrightarrow> hp + (len - 1) = 0 \<Longrightarrow> cp \<noteq> 0 \<Longrightarrow>
   unat (len - 1) + unat cp \<le> 65535 \<Longrightarrow>
   \<forall>k. mapGet (fst st) k \<noteq> 0 \<longrightarrow> (\<exists>j. j < index \<and> k = cp + j) \<Longrightarrow>
   \<forall>k. mapGet (fst (snd st)) k \<noteq> 0 \<longrightarrow> (\<exists>j. j < index \<and> k = hp + j) \<Longrightarrow>
   rangeLoop p origIP cp hp len index st = Inl ZeroPortInExpansion"
proof (induction p origIP cp hp len index st rule: rangeLoop.induct)
  case (1 p origIP cp hp len index st)
  obtain cm hm fm where st: "st = (cm, hm, fm)" by (cases st)
  have cnz: "cp + index \<noteq> 0"
    using "1.prems"(3) "1.prems"(1) "1.prems"(4) by (rule no_wrap_nonzero)
  show ?case
  proof (cases "hp + index = 0")
    case True
    with "1.prems"(1) show ?thesis
      by (simp add: rangeLoop.simps [of p origIP cp hp len index st] rangeStep_def
          split: prod.splits)
  next
    case False
    have c0: "mapGet cm (cp + index) = 0"
    proof (rule ccontr)
      assume "mapGet cm (cp + index) \<noteq> 0"
      with "1.prems"(5) st obtain j where "j < index" "cp + index = cp + j" by auto
      then show False by simp
    qed
    have h0: "mapGet hm (hp + index) = 0"
    proof (rule ccontr)
      assume "mapGet hm (hp + index) \<noteq> 0"
      with "1.prems"(6) st obtain j where "j < index" "hp + index = hp + j" by auto
      then show False by simp
    qed
    let ?new = "\<lparr>cniHostPort = ucast (hp + index), cniContainerPort = ucast (cp + index),
                  cniProtocol = p, cniHostIP = origIP\<rparr>"
    let ?st1 = "(cm(cp + index \<mapsto> hp + index), hm(hp + index \<mapsto> cp + index), fm @ [?new])"
    from cnz False c0 h0 st
    have step: "rangeStep p origIP (cp + index) (hp + index) st = Inr ?st1"
      by (simp add: rangeStep_def Let_def)
    have more: "index + 1 < len"
    proof (rule ccontr)
      assume "\<not> index + 1 < len"
      with "1.prems"(1) have "index = len - 1" by (rule last_index)
      with "1.prems"(2) False show False by simp
    qed
    have lt: "index < index + 1" using "1.prems"(1) by (rule index_less_Suc)
    have i1: "\<forall>k. mapGet (fst ?st1) k \<noteq> 0 \<longrightarrow> (\<exists>j. j < index + 1 \<and> k = cp + j)"
    proof (intro allI impI)
      fix k
      assume nz: "mapGet (fst ?st1) k \<noteq> 0"
      show "\<exists>j. j < index + 1 \<and> k = cp + j"
      proof (cases "k = cp + index")
        case True
        with lt show ?thesis by blast
      next
        case False
        with nz have "mapGet cm k \<noteq> 0" by (simp add: mapGet_upd)
        with "1.prems"(5) st obtain j where j: "j < index" "k = cp + j" by auto
        from j(1) lt have "j < index + 1" by (rule less_trans)
        with j(2) show ?thesis by blast
      qed
    qed
    have i2: "\<forall>k. mapGet (fst (snd ?st1)) k \<noteq> 0 \<longrightarrow> (\<exists>j. j < index + 1 \<and> k = hp + j)"
    proof (intro allI impI)
      fix k
      assume nz: "mapGet (fst (snd ?st1)) k \<noteq> 0"
      show "\<exists>j. j < index + 1 \<and> k = hp + j"
      proof (cases "k = hp + index")
        case True
        with lt show ?thesis by blast
      next
        case False
        with nz have "mapGet hm k \<noteq> 0" by (simp add: mapGet_upd)
        with "1.prems"(6) st obtain j where j: "j < index" "k = hp + j" by auto
        from j(1) lt have "j < index + 1" by (rule less_trans)
        with j(2) show ?thesis by blast
      qed
    qed
    have "rangeLoop p origIP cp hp len (index + 1) ?st1 = Inl ZeroPortInExpansion"
      using "1.prems"(1) step more "1.prems"(2) "1.prems"(3) "1.prems"(4) i1 i2
      by (rule "1.IH")
    with step "1.prems"(1) show ?thesis
      by (simp add: rangeLoop.simps [of p origIP cp hp len index st])
  qed
qed

lemma checkProtocol_loop_distinct:
  "checkProtocol_loop b xs acc = Inr r \<Longrightarrow> distinct acc \<Longrightarrow> distinct r"
  by (induction xs arbitrary: acc) (auto split: if_splits)

lemma checkProtocol_loop_subset:
  "checkProtocol_loop b xs acc = Inr r \<Longrightarrow> set acc \<subseteq> {protoTCP, protoUDP, protoSCTP} \<Longrightarrow>
   set r \<subseteq> {protoTCP, protoUDP, protoSCTP}"
  by (induction xs arbitrary: acc) (auto split: if_splits)

lemma checkProtocol_loop_no_sctp:
  "checkProtocol_loop False xs acc = Inr r \<Longrightarrow> set acc \<subseteq> {protoTCP, protoUDP} \<Longrightarrow>
   set r \<subseteq> {protoTCP, protoUDP}"
  by (induction xs arbitrary: acc) (auto split: if_splits)

lemma checkProtocol_not_Nil: "checkProtocol e s b = Inr ps \<Longrightarrow> ps \<noteq> []"
  by (auto simp: checkProtocol_def Let_def split: sum.splits if_splits)

lemma rangeProtocols_set: "iteration_orders e \<Longrightarrow> set (rangeProtocols e xs) = set xs"
  unfolding iteration_orders_def by (metis set_mset_mset)

lemma rangeProtocols_distinct: "iteration_orders e \<Longrightarrow> distinct (rangeProtocols e xs) = distinct xs"
  unfolding iteration_orders_def by (metis mset_eq_imp_distinct_iff)

lemma checkProtocol_distinct:
  assumes "iteration_orders e" and "checkProtocol e s b = Inr ps"
  shows "distinct ps"
proof -
  from assms(2) obtain r where r: "checkProtocol_loop b (Split s CHR '','') [] = Inr r"
    and ps: "ps = rangeProtocols e r"
    by (auto simp: checkProtocol_def Let_def split: sum.splits if_splits)
  from checkProtocol_loop_distinct [OF r] have "distinct r" by simp
  with ps show ?thesis by (simp add: rangeProtocols_distinct [OF assms(1)])
qed

lemma checkProtocol_subset:
  assumes "iteration_orders e" and "checkProtocol e s b = Inr ps"
  shows "set ps \<subseteq> {protoTCP, protoUDP, protoSCTP}"
proof -
  from assms(2) obtain r where r: "checkProtocol_loop b (Split s CHR '','') [] = Inr r"
    and ps: "ps = rangeProtocols e r"
    by (auto simp: checkProtocol_def Let_def split: sum.splits if_splits)
  from checkProtocol_loop_subset [OF r] have "set r \<subseteq> {protoTCP, protoUDP, protoSCTP}" by simp
  with ps show ?thesis by (simp add: rangeProtocols_set [OF assms(1)])
qed

lemma checkProtocol_no_sctp:
  assumes "iteration_orders e" and "checkProtocol e s False = Inr ps"
  shows "set ps \<subseteq> {protoTCP, protoUDP}"
proof -
  from assms(2) obtain r where r: "checkProtocol_loop False (Split s CHR '','') [] = Inr r"
    and ps: "ps = rangeProtocols e r"
    by (auto simp: checkProtocol_def Let_def split: sum.splits if_splits)
  from checkProtocol_loop_no_sctp [OF r] have "set r \<subseteq> {protoTCP, protoUDP}" by simp
  with ps show ?thesis by (simp add: rangeProtocols_set [OF assms(1)])
qed

lemma zero_less_len: "(len :: u16) \<noteq> 0 \<Longrightarrow> 0 < len"
  by (simp add: word_neq_0_conv)

lemma protocolLoop_boundary:
  assumes "ps \<noteq> []" and "len \<noteq> 0" and "hp + (len - 1) = 0"
  shows "\<exists>err. protocolLoop hostIP origIP cp hp len ps st = Inl err"
proof -
  from assms(1) obtain p ps' where ps: "ps = p # ps'" by (cases ps) auto
  obtain ctr host fm where st: "st = (ctr, host, fm)" by (cases st)
  from assms(2) have lt: "0 < len" by (rule zero_less_len)
  show ?thesis
  proof (cases "host p")
    case None
    with ps st show ?thesis by simp
  next
    case hI: (Some hI)
    show ?thesis
    proof (cases "ctr p")
      case None
      with ps st hI show ?thesis by simp
    next
      case cI: (Some cI)
      from rangeLoop_boundary [OF lt assms(3)] obtain err where
        "rangeLoop p origIP cp hp len 0 (portMapAt cI hostIP, portMapAt hI hostIP, fm) = Inl err"
        by blast
      with ps st hI cI show ?thesis by (simp add: Let_def)
    qed
  qed
qed

lemma requestLen_nonzero: "requestLen port \<noteq> 0"
  by (simp add: requestLen_def)

lemma portMappingsLoop_boundary:
  "port \<in> set pms \<Longrightarrow> requestHostPort port + (requestLen port - 1) = 0 \<Longrightarrow>
   \<exists>err. portMappingsLoop e pms st = Inl err"
proof (induction pms arbitrary: st)
  case Nil
  then show ?case by simp
next
  case (Cons x pms)
  show ?case
  proof (cases "portMappingsLoop e (x # pms) st")
    case (Inl err)
    then show ?thesis by blast
  next
    case (Inr r)
    let ?hostIP = "if HostIP x = [] then ''0.0.0.0'' else HostIP x"
    from Inr obtain protocols st1 where
      cp: "checkProtocol e (Protocol x) True = Inr protocols"
      and pl: "protocolLoop ?hostIP (HostIP x) (ContainerPort x) (requestHostPort x)
           (requestLen x) protocols st = Inr st1"
      and rest: "portMappingsLoop e pms st1 = Inr r"
      by (simp add: Let_def requestLen_def requestHostPort_def split: sum.splits if_splits)
    have "x \<noteq> port"
    proof
      assume xp: "x = port"
      from cp have ne: "protocols \<noteq> []" by (rule checkProtocol_not_Nil)
      from protocolLoop_boundary [OF ne requestLen_nonzero Cons.prems(2)]
      obtain err where "protocolLoop ?hostIP (HostIP x) (ContainerPort x) (requestHostPort port)
           (requestLen port) protocols st = Inl err" by blast
      with pl xp show False by simp
    qed
    with Cons.prems(1) have "port \<in> set pms" by simp
    from Cons.IH [OF this Cons.prems(2), of st1] obtain err where
      "portMappingsLoop e pms st1 = Inl err" by blast
    with rest show ?thesis by simp
  qed
qed

lemma single_boundary:
  assumes "iteration_orders e"
    and "checkProtocol e (Protocol port) True = Inr protocols"
    and "ParseIP_ok e (resolveIP (HostIP port))"
    and "ContainerPort port \<noteq> 0"
    and "unat (requestLen port - 1) + unat (ContainerPort port) \<le> 65535"
    and "unat (requestHostPort port) + unat (requestLen port) - 1 = 65536"
  shows "parsePortMapping e [port] = Inl ZeroPortInExpansion"
proof -
  let ?len = "requestLen port" and ?hp = "requestHostPort port"
  let ?hostIP = "resolveIP (HostIP port)"
  have wrap: "?hp + (?len - 1) = 0"
    using assms(6) requestLen_nonzero by (rule boundary_wraps)
  from checkProtocol_not_Nil [OF assms(2)] obtain p ps where ps: "protocols = p # ps"
    by (cases protocols) auto
  from checkProtocol_subset [OF assms(1,2)] ps
  have "p \<in> {protoTCP, protoUDP, protoSCTP}" by auto
  then have tbl: "emptyTable p = Some Map.empty"
    by (auto simp: emptyTable_def protoTCP_def protoUDP_def protoSCTP_def)
  have lt: "0 < ?len" using requestLen_nonzero by (rule zero_less_len)
  have "rangeLoop p (HostIP port) (ContainerPort port) ?hp ?len 0 (Map.empty, Map.empty, []) =
      Inl ZeroPortInExpansion"
    using lt wrap assms(4) assms(5) by (rule rangeLoop_fresh) (simp_all add: mapGet_empty)
  with tbl ps have pl: "protocolLoop ?hostIP (HostIP port) (ContainerPort port) ?hp ?len protocols
      (emptyTable, emptyTable, []) = Inl ZeroPortInExpansion"
    by (simp add: portMapAt_def)
  have nat_len: "unat (?len - 1) = unat ?len - 1"
    using requestLen_nonzero by (rule unat_pred)
  have pos: "0 < unat ?len" using requestLen_nonzero by (simp add: unat_gt_0)
  from assms(6) pos have hb: "\<not> unat (?len - 1) + unat ?hp > 65536"
    unfolding nat_len by arith
  from assms(5) have cb: "\<not> unat (?len - 1) + unat (ContainerPort port) > 65535"
    by simp
  have "portMappingsLoop e [port] (emptyTable, emptyTable, []) = Inl ZeroPortInExpansion"
    using assms(2) assms(3) assms(4) hb cb pl
    by (simp add: u32_bound_65535 u32_bound_65536 Let_def resolveIP_def requestLen_def
        requestHostPort_def del: protocolLoop.simps)
  then show ?thesis by (simp add: parsePortMapping_def)
qed

lemma parse_ports:
  assumes "parsePortMapping e pms = Inr (fm, ctr, host)" and "m \<in> set fm"
  shows "1 \<le> sint (cniHostPort m) \<and> sint (cniHostPort m) \<le> 65535 \<and>
         1 \<le> sint (cniContainerPort m) \<and> sint (cniContainerPort m) \<le> 65535"
proof -
  let ?G = "tablePM ctr (cniProtocol m) (resolveIP (cniHostIP m))"
  note inv = parsePortMapping_inv [OF assms(1)]
  from parseInvD(2) [OF inv assms(2)] obtain c where
    c: "mapGet ?G c \<noteq> 0" "cniContainerPort m = ucast c" "cniHostPort m = ucast (mapGet ?G c)"
    by (rule trackedE)
  from pmMirrorD1 [OF parseInvD(1) [OF inv] c(1)] have "c \<noteq> 0" by simp
  from port_in_range [OF this] port_in_range [OF c(1)] c(2,3) show ?thesis by simp
qed

text \<open>
  C10: every finalized mapping that \<open>parsePortMapping\<close> returns has its host port and
  its container port between 1 and 65535. A request whose host port plus range minus 1
  is 65536 passes the bounds check, but then the 16-bit sum of the host port and the last
  offset is 0, and the call fails wherever the request stands in the list; given alone,
  with everything else in order, it fails on the check that no port is 0.
\<close>

theorem finalized_ports_in_range:
  "(parsePortMapping e pms = Inr (fm, ctr, host) \<longrightarrow>
      (\<forall>m \<in> set fm.
         1 \<le> sint (cniHostPort m) \<and> sint (cniHostPort m) \<le> 65535 \<and>
         1 \<le> sint (cniContainerPort m) \<and> sint (cniContainerPort m) \<le> 65535)) \<and>
   (port \<in> set pms \<and> unat (requestHostPort port) + unat (requestLen port) - 1 = 65536 \<longrightarrow>
      requestHostPort port + (requestLen port - 1) = 0 \<and>
      (\<exists>err. parsePortMapping e pms = Inl err)) \<and>
   (iteration_orders e \<and> checkProtocol e (Protocol port) True = Inr protocols \<and>
    ParseIP_ok e (resolveIP (HostIP port)) \<and> ContainerPort port \<noteq> 0 \<and>
    unat (requestLen port - 1) + unat (ContainerPort port) \<le> 65535 \<and>
    unat (requestHostPort port) + unat (requestLen port) - 1 = 65536 \<longrightarrow>
      parsePortMapping e [port] = Inl ZeroPortInExpansion)"
proof (intro conjI impI ballI)
  fix m
  assume "parsePortMapping e pms = Inr (fm, ctr, host)" and "m \<in> set fm"
  from parse_ports [OF this]
  show "1 \<le> sint (cniHostPort m)" and "sint (cniHostPort m) \<le> 65535"
    and "1 \<le> sint (cniContainerPort m)" and "sint (cniContainerPort m) \<le> 65535"
    by simp_all
next
  assume a: "port \<in> set pms \<and> unat (requestHostPort port) + unat (requestLen port) - 1 = 65536"
  then have b: "unat (requestHostPort port) + unat (requestLen port) - 1 = 65536" by simp
  from b requestLen_nonzero show wrap: "requestHostPort port + (requestLen port - 1) = 0"
    by (rule boundary_wraps)
  from a have "port \<in> set pms" by simp
  from portMappingsLoop_boundary [OF this wrap] obtain err where
    "portMappingsLoop e pms (emptyTable, emptyTable, []) = Inl err" by blast
  then show "\<exists>err. parsePortMapping e pms = Inl err"
    by (simp add: parsePortMapping_def)
next
  assume "iteration_orders e \<and> checkProtocol e (Protocol port) True = Inr protocols \<and>
    ParseIP_ok e (resolveIP (HostIP port)) \<and> ContainerPort port \<noteq> 0 \<and>
    unat (requestLen port - 1) + unat (ContainerPort port) \<le> 65535 \<and>
    unat (requestHostPort port) + unat (requestLen port) - 1 = 65536"
  then show "parsePortMapping e [port] = Inl ZeroPortInExpansion"
    by (intro single_boundary [of e port protocols]) simp_all
qed

theorem finalized_ports_in_range_witness:
  "parsePortMapping sampleEnv
     [\<lparr>HostIP = '''', ContainerPort = 80, HostPort = 8080, Range = 0, Protocol = ''tcp''\<rparr>] =
   Inr ([\<lparr>cniHostPort = 8080, cniContainerPort = 80, cniProtocol = ''tcp'', cniHostIP = ''''\<rparr>],
        emptyTable(''tcp'' \<mapsto> [''0.0.0.0'' \<mapsto> [80 \<mapsto> 8080]]),
        emptyTable(''tcp'' \<mapsto> [''0.0.0.0'' \<mapsto> [8080 \<mapsto> 80]])) \<and>
   1 \<le> sint (8080 :: i32) \<and> sint (8080 :: i32) \<le> 65535 \<and>
   1 \<le> sint (80 :: i32) \<and> sint (80 :: i32) \<le> 65535 \<and>
   unat (requestHostPort
     \<lparr>HostIP = '''', ContainerPort = 1, HostPort = 65535, Range = 2, Protocol = ''tcp''\<rparr>) +
   unat (requestLen
     \<lparr>HostIP = '''', ContainerPort = 1, HostPort = 65535, Range = 2, Protocol = ''tcp''\<rparr>) - 1 =
   65536 \<and>
   (\<exists>err. parsePortMapping sampleEnv
     [\<lparr>HostIP = '''', ContainerPort = 80, HostPort = 8080, Range = 0, Protocol = ''tcp''\<rparr>,
      \<lparr>HostIP = '''', ContainerPort = 1, HostPort = 65535, Range = 2, Protocol = ''tcp''\<rparr>] =
     Inl err) \<and>
   parsePortMapping sampleEnv
     [\<lparr>HostIP = '''', ContainerPort = 1, HostPort = 65535, Range = 2, Protocol = ''tcp''\<rparr>] =
   Inl ZeroPortInExpansion"
proof -
  let ?r = "\<lparr>HostIP = '''', ContainerPort = 80, HostPort = 8080, Range = 0, Protocol = ''tcp''\<rparr>"
  let ?b = "\<lparr>HostIP = '''', ContainerPort = 1, HostPort = 65535, Range = 2, Protocol = ''tcp''\<rparr>"
  let ?m = "\<lparr>cniHostPort = 8080, cniContainerPort = 80, cniProtocol = ''tcp'', cniHostIP = ''''\<rparr>"
  let ?ctr = "emptyTable(''tcp'' \<mapsto> [''0.0.0.0'' \<mapsto> [80 \<mapsto> 8080 :: u16]])"
  let ?host = "emptyTable(''tcp'' \<mapsto> [''0.0.0.0'' \<mapsto> [8080 \<mapsto> 80 :: u16]])"
  have ip: "ParseIP_ok sampleEnv ''0.0.0.0''"
    by (simp add: sampleEnv_def)
  have run: "parsePortMapping sampleEnv [?r] = Inr ([?m], ?ctr, ?host)"
    using ip
    by (simp add: parse_eval rangeLoop.simps checkProtocol_tcp [OF iteration_orders_sampleEnv])
  have bound: "unat (requestHostPort ?b) + unat (requestLen ?b) - 1 = 65536"
    by (simp add: requestHostPort_def requestLen_def)
  have cp: "checkProtocol sampleEnv (Protocol ?b) True = Inr [''tcp'']"
    by (simp add: checkProtocol_tcp [OF iteration_orders_sampleEnv])
  have ipb: "ParseIP_ok sampleEnv (resolveIP (HostIP ?b))"
    by (simp add: sampleEnv_def resolveIP_def)
  have cb: "unat (requestLen ?b - 1) + unat (ContainerPort ?b) \<le> 65535"
    by (simp add: requestLen_def)
  have nz: "ContainerPort ?b \<noteq> 0"
    by simp
  from finalized_ports_in_range [of sampleEnv "[?r]" "[?m]" ?ctr ?host] run
  have ports: "1 \<le> sint (cniHostPort ?m) \<and> sint (cniHostPort ?m) \<le> 65535 \<and>
         1 \<le> sint (cniContainerPort ?m) \<and> sint (cniContainerPort ?m) \<le> 65535"
    by simp
  from finalized_ports_in_range [of sampleEnv "[?r, ?b]" _ _ _ ?b] bound
  have fails: "\<exists>err. parsePortMapping sampleEnv [?r, ?b] = Inl err"
    by simp
  from finalized_ports_in_range [of sampleEnv _ _ _ _ ?b "[''tcp'']"]
    iteration_orders_sampleEnv cp ipb nz cb bound
  have alone: "parsePortMapping sampleEnv [?b] = Inl ZeroPortInExpansion"
    by blast
  from run ports bound fails alone show ?thesis by simp
qed


section \<open>Marking the exposed ports\<close>

lemma tablePM_ensure:
  assumes "t p = Some cI"
  shows "tablePM (t(p \<mapsto> cI(ip \<mapsto> portMapAt cI ip))) = tablePM t"
proof -
  have "tablePM t p ip = portMapAt cI ip" using assms by (simp add: tablePM_def)
  then have "(tablePM t)(p := (tablePM t p)(ip := portMapAt cI ip)) = tablePM t"
    by (metis fun_upd_triv)
  with tablePM_upd [of t p cI ip "portMapAt cI ip", OF assms] show ?thesis by simp
qed


text \<open>One run of the marking loop, for one port of the expose map.\<close>

lemma markLoop_view:
  "markLoop port ps (t, c) = Inr (t', c') \<Longrightarrow> tablePM c' = tablePM c"
proof (induction ps arbitrary: t c)
  case Nil
  then show ?case by simp
next
  case (Cons p ps)
  from Cons.prems obtain cI where cI: "c p = Some cI" by (auto split: option.splits)
  let ?c1 = "c(p \<mapsto> cI(''0.0.0.0'' \<mapsto> portMapAt cI ''0.0.0.0''))"
  from Cons.prems cI obtain t1 where "markLoop port ps (t1, ?c1) = Inr (t', c')"
    by (auto simp: Let_def split: if_splits)
  from Cons.IH [OF this] show ?case
    unfolding tablePM_ensure [of c p cI, OF cI] .
qed

lemma markLoop_distinct:
  "markLoop port ps (t, c) = Inr (t', c') \<Longrightarrow> distinct (map fst t) \<Longrightarrow> distinct (map fst t')"
proof (induction ps arbitrary: t c)
  case Nil
  then show ?case by simp
next
  case (Cons p ps)
  from Cons.prems obtain cI where cI: "c p = Some cI" by (auto split: option.splits)
  let ?c1 = "c(p \<mapsto> cI(''0.0.0.0'' \<mapsto> portMapAt cI ''0.0.0.0''))"
  from Cons.prems(1) cI obtain t1 where r: "markLoop port ps (t1, ?c1) = Inr (t', c')"
    and t1: "t1 = t \<or> (\<exists>v. t1 = AList.update port v t)"
    by (auto simp: Let_def split: if_splits)
  from t1 Cons.prems(2) have "distinct (map fst t1)" by (auto simp: distinct_update)
  from Cons.IH [OF r this] show ?case .
qed



lemma exposeLoop_Cons:
  assumes "exposeLoop e ((port, proto) # rest) (t, c) = Inr (t', c')"
  obtains protocols t1 c1 where "checkProtocol e proto False = Inr protocols" and "port \<noteq> 0"
    and "markLoop port protocols (t, c) = Inr (t1, c1)"
    and "exposeLoop e rest (t1, c1) = Inr (t', c')"
proof -
  from assms obtain protocols where cp: "checkProtocol e proto False = Inr protocols"
    by (cases "checkProtocol e proto False") auto
  with assms have nz: "port \<noteq> 0" by (auto split: if_splits)
  with assms cp obtain st1 where m: "markLoop port protocols (t, c) = Inr st1"
    and r: "exposeLoop e rest st1 = Inr (t', c')"
    by (cases "markLoop port protocols (t, c)") auto
  obtain t1 c1 where "st1 = (t1, c1)" by (cases st1)
  with cp nz m r that show ?thesis by blast
qed

lemma exposeLoop_view:
  "exposeLoop e xs (t, c) = Inr (t', c') \<Longrightarrow> tablePM c' = tablePM c"
proof (induction xs arbitrary: t c)
  case Nil
  then show ?case by simp
next
  case (Cons x xs)
  obtain port proto where x: "x = (port, proto)" by (cases x)
  from Cons.prems [unfolded x] obtain protocols t1 c1 where
    m: "markLoop port protocols (t, c) = Inr (t1, c1)"
    and r: "exposeLoop e xs (t1, c1) = Inr (t', c')"
    by (rule exposeLoop_Cons)
  from Cons.IH [OF r] markLoop_view [OF m] show ?case by simp
qed

lemma exposeLoop_distinct:
  "exposeLoop e xs (t, c) = Inr (t', c') \<Longrightarrow> distinct (map fst t) \<Longrightarrow> distinct (map fst t')"
proof (induction xs arbitrary: t c)
  case Nil
  then show ?case by simp
next
  case (Cons x xs)
  obtain port proto where x: "x = (port, proto)" by (cases x)
  from Cons.prems(1) [unfolded x] obtain protocols t1 c1 where
    m: "markLoop port protocols (t, c) = Inr (t1, c1)"
    and r: "exposeLoop e xs (t1, c1) = Inr (t', c')"
    by (rule exposeLoop_Cons)
  from Cons.IH [OF r markLoop_distinct [OF m Cons.prems(2)]] show ?case .
qed

lemma exposeLoop_nonzero:
  "exposeLoop e xs (t, c) = Inr (t', c') \<Longrightarrow> (port, proto) \<in> set xs \<Longrightarrow> port \<noteq> 0"
proof (induction xs arbitrary: t c)
  case Nil
  then show ?case by simp
next
  case (Cons x xs)
  obtain k v where x: "x = (k, v)" by (cases x)
  from Cons.prems(1) [unfolded x] obtain protocols t1 c1 where
    nz: "k \<noteq> 0" and r: "exposeLoop e xs (t1, c1) = Inr (t', c')"
    by (rule exposeLoop_Cons)
  show ?case
  proof (cases "(port, proto) = (k, v)")
    case True
    with nz show ?thesis by simp
  next
    case False
    with Cons.prems(2) x have "(port, proto) \<in> set xs" by auto
    from Cons.IH [OF r this] show ?thesis .
  qed
qed




end
